theory Spec2Isabelle
  imports Main "HOL-Library.Word"
begin

section \<open>The tasks table as SQLite sees it\<close>

text \<open>
  The migration \<^verbatim>\<open>20260103193000_add_task_track_parent_task_id_phase_key.sql\<close> is a
  list of six DDL statements against the table \<^verbatim>\<open>tasks\<close>. The table itself is
  created by an earlier migration, so the store the statements run against is a
  parameter: a table name, its column definitions, its indexes and its rows.

  Identifiers are kept in their lower-case form (SQLite compares table, column and
  index names ignoring ASCII case). Values are the storage classes that the
  application binds to the columns of this migration: NULL, text and UUID bytes.
\<close>

type_synonym ident = string

datatype val = Null | Text string | Blob "8 word list"

datatype coltype = TEXT | BLOB

record column_def =
  cname :: ident
  ctype :: coltype
  cnotnull :: bool
  cdefault :: "val option"
  creferences :: "(ident \<times> ident) option"

datatype expr = IsNotNull ident | And expr expr

record index_def =
  iname :: ident
  iunique :: bool
  icols :: "ident list"
  iwhere :: "expr option"

type_synonym row = "(ident \<times> val) list"

record db =
  tbl_name :: ident
  cols :: "column_def list"
  idxs :: "index_def list"
  rows :: "row list"

datatype error =
    NoSuchTable ident
  | DuplicateColumn ident
  | NotNullNoDefault ident
  | NoSuchColumn ident
  | IndexExists ident
  | NotNullFailed ident
  | UniqueFailed ident
  | ForeignKeyMismatch ident
  | ForeignKeyFailed

text \<open>The errors that SQLite reports as constraint violations of a write.\<close>

fun constraint_violation :: "error \<Rightarrow> bool" where
  "constraint_violation (NotNullFailed c) = True"
| "constraint_violation (UniqueFailed i) = True"
| "constraint_violation ForeignKeyFailed = True"
| "constraint_violation e = False"

datatype stmt =
    AddColumn ident column_def
  | CreateIndex bool ident index_def

subsection \<open>Reading a row\<close>

definition col :: "row \<Rightarrow> ident \<Rightarrow> val" where
  "col r c = (case map_of r c of None \<Rightarrow> Null | Some v \<Rightarrow> v)"

definition default_val :: "column_def \<Rightarrow> val" where
  "default_val cd = (case cdefault cd of None \<Rightarrow> Null | Some v \<Rightarrow> v)"

fun eval_expr :: "expr \<Rightarrow> row \<Rightarrow> bool" where
  "eval_expr (IsNotNull c) r = (col r c \<noteq> Null)"
| "eval_expr (And a b) r = (eval_expr a r \<and> eval_expr b r)"

fun expr_cols :: "expr \<Rightarrow> ident list" where
  "expr_cols (IsNotNull c) = [c]"
| "expr_cols (And a b) = expr_cols a @ expr_cols b"

subsection \<open>Indexes\<close>

text \<open>
  A row has an entry in a partial index when the index's WHERE clause holds of it.
  Two entries of a unique index collide when their keys are equal and hold no NULL
  (SQLite treats NULLs in a unique index as distinct from each other).
\<close>

definition in_index :: "index_def \<Rightarrow> row \<Rightarrow> bool" where
  "in_index i r = (case iwhere i of None \<Rightarrow> True | Some e \<Rightarrow> eval_expr e r)"

definition key_of :: "index_def \<Rightarrow> row \<Rightarrow> val list" where
  "key_of i r = map (col r) (icols i)"

definition conflicts :: "index_def \<Rightarrow> row \<Rightarrow> row \<Rightarrow> bool" where
  "conflicts i r s =
     (in_index i r \<and> in_index i s \<and> Null \<notin> set (key_of i r) \<and> key_of i r = key_of i s)"

definition violated :: "index_def \<Rightarrow> row list \<Rightarrow> row \<Rightarrow> bool" where
  "violated i rs r = (iunique i \<and> (\<exists>s \<in> set rs. conflicts i r s))"

fun no_conflicts :: "index_def \<Rightarrow> row list \<Rightarrow> bool" where
  "no_conflicts i [] = True"
| "no_conflicts i (r # rs) = ((\<forall>s \<in> set rs. \<not> conflicts i r s) \<and> no_conflicts i rs)"

text \<open>
  SQLite walks the indexes of a table from the one created last, and reports the first
  unique index in which the new row collides.
\<close>

definition check_unique :: "index_def list \<Rightarrow> row list \<Rightarrow> row \<Rightarrow> error option" where
  "check_unique ixs rs r =
     (case find (\<lambda>i. violated i rs r) (rev ixs) of
        None \<Rightarrow> None
      | Some i \<Rightarrow> Some (UniqueFailed (iname i)))"

definition check_not_null :: "column_def list \<Rightarrow> row \<Rightarrow> error option" where
  "check_not_null cs r =
     (case find (\<lambda>c. cnotnull c \<and> col r (cname c) = Null) cs of
        None \<Rightarrow> None
      | Some c \<Rightarrow> Some (NotNullFailed (cname c)))"

definition unknown_col :: "db \<Rightarrow> ident list \<Rightarrow> ident option" where
  "unknown_col d cs = find (\<lambda>c. c \<notin> set (map cname (cols d))) cs"

subsection \<open>Schema statements\<close>

text \<open>
  \<^verbatim>\<open>ALTER TABLE t ADD COLUMN\<close> fails on a column name the table already has; a
  NOT NULL column needs a non-NULL default once the table has rows; the rows already
  stored read the default in the new column.

  \<^verbatim>\<open>CREATE [UNIQUE] INDEX [IF NOT EXISTS] i ON t(...) [WHERE ...]\<close>: when an
  index of that name exists, the statement is skipped under IF NOT EXISTS and fails
  otherwise; a unique index is refused when the rows already stored collide in it.
\<close>

fun exec :: "stmt \<Rightarrow> db \<Rightarrow> error + db" where
  "exec (AddColumn t cd) d =
     (if t \<noteq> tbl_name d then Inl (NoSuchTable t)
      else if cname cd \<in> set (map cname (cols d)) then Inl (DuplicateColumn (cname cd))
      else if cnotnull cd \<and> default_val cd = Null \<and> rows d \<noteq> []
        then Inl (NotNullNoDefault (cname cd))
      else Inr (d\<lparr>cols := cols d @ [cd],
                  rows := map (\<lambda>r. r @ [(cname cd, default_val cd)]) (rows d)\<rparr>))"
| "exec (CreateIndex if_not_exists t i) d =
     (if t \<noteq> tbl_name d then Inl (NoSuchTable t)
      else if iname i \<in> set (map iname (idxs d))
        then (if if_not_exists then Inr d else Inl (IndexExists (iname i)))
      else case unknown_col d (icols i @ (case iwhere i of None \<Rightarrow> [] | Some e \<Rightarrow> expr_cols e)) of
        Some c \<Rightarrow> Inl (NoSuchColumn c)
      | None \<Rightarrow>
          if iunique i \<and> \<not> no_conflicts i (rows d) then Inl (UniqueFailed (iname i))
          else Inr (d\<lparr>idxs := idxs d @ [i]\<rparr>))"

text \<open>A migration runs its statements in order and stops at the first error.\<close>

fun run :: "stmt list \<Rightarrow> db \<Rightarrow> error + db" where
  "run [] d = Inr d"
| "run (s # ss) d = (case exec s d of Inl e \<Rightarrow> Inl e | Inr d' \<Rightarrow> run ss d')"

subsection \<open>Writes\<close>

text \<open>
  \<^verbatim>\<open>INSERT INTO t (c1, ..., cn) VALUES (v1, ..., vn)\<close>, with no ON CONFLICT
  clause: a column that is not named takes its default; NOT NULL is checked first, then
  the unique indexes; a failed check rejects the row and leaves the store as it was.
\<close>

definition complete :: "column_def list \<Rightarrow> row \<Rightarrow> row" where
  "complete cs r =
     map (\<lambda>c. (cname c, case map_of r (cname c) of Some v \<Rightarrow> v | None \<Rightarrow> default_val c)) cs"

definition insert_row :: "db \<Rightarrow> row \<Rightarrow> error + db" where
  "insert_row d r =
     (case unknown_col d (map fst r) of
        Some c \<Rightarrow> Inl (NoSuchColumn c)
      | None \<Rightarrow>
          (case check_not_null (cols d) (complete (cols d) r) of
             Some e \<Rightarrow> Inl e
           | None \<Rightarrow>
               (case check_unique (idxs d) (rows d) (complete (cols d) r) of
                  Some e \<Rightarrow> Inl e
                | None \<Rightarrow> Inr (d\<lparr>rows := rows d @ [complete (cols d) r]\<rparr>))))"

text \<open>
  Foreign keys. A column declared \<^verbatim>\<open>REFERENCES t(c)\<close> carries the parent table and
  column in \<open>creferences\<close>. SQLite enforces foreign keys only on a connection that
  has switched them on (\<^verbatim>\<open>PRAGMA foreign_keys = ON\<close>; off is its default):
  \<open>insert_row\<close> above is the insert as it is with enforcement off, and as it is in a
  table that declares no reference; \<open>insert_row_fk\<close> is the insert with enforcement
  on. With enforcement on, the statement is refused before any row is looked at when a
  parent table does not exist (the store holds one table) or the parent column has no
  unique index of its own; after the row has passed NOT NULL and the unique indexes, a
  non-null child value must be the parent column's value in some row, the new row
  included. Only the insert is given with enforcement on; updates and deletes, and the
  histories of writes built from them, are those with enforcement off. (With enforcement
  on SQLite also refuses \<^verbatim>\<open>ADD COLUMN\<close> for a REFERENCES column with a non-null
  default; no column of this migration has a REFERENCES clause.)
\<close>

definition parent_key_error :: "ident \<Rightarrow> index_def list \<Rightarrow> ident \<times> ident \<Rightarrow> error option" where
  "parent_key_error t ixs ref =
     (case ref of (pt, pc) \<Rightarrow>
        if pt \<noteq> t then Some (NoSuchTable pt)
        else if \<exists>i \<in> set ixs. iunique i \<and> icols i = [pc] \<and> iwhere i = None then None
        else Some (ForeignKeyMismatch pt))"

fun check_references :: "ident \<Rightarrow> index_def list \<Rightarrow> column_def list \<Rightarrow> error option" where
  "check_references t ixs [] = None"
| "check_references t ixs (c # cs) =
     (case creferences c of
        None \<Rightarrow> check_references t ixs cs
      | Some ref \<Rightarrow>
          (case parent_key_error t ixs ref of
             Some e \<Rightarrow> Some e
           | None \<Rightarrow> check_references t ixs cs))"

fun check_foreign :: "column_def list \<Rightarrow> row list \<Rightarrow> row \<Rightarrow> error option" where
  "check_foreign [] rs r = None"
| "check_foreign (c # cs) rs r =
     (case creferences c of
        None \<Rightarrow> check_foreign cs rs r
      | Some (pt, pc) \<Rightarrow>
          if col r (cname c) = Null \<or> (\<exists>s \<in> set rs. col s pc = col r (cname c))
          then check_foreign cs rs r
          else Some ForeignKeyFailed)"

definition insert_row_fk :: "db \<Rightarrow> row \<Rightarrow> error + db" where
  "insert_row_fk d r =
     (case unknown_col d (map fst r) of
        Some c \<Rightarrow> Inl (NoSuchColumn c)
      | None \<Rightarrow>
          (case check_references (tbl_name d) (idxs d) (cols d) of
             Some e \<Rightarrow> Inl e
           | None \<Rightarrow>
               (case insert_row d r of
                  Inl e \<Rightarrow> Inl e
                | Inr d' \<Rightarrow>
                    (case check_foreign (cols d) (rows d') (complete (cols d) r) of
                       Some e \<Rightarrow> Inl e
                     | None \<Rightarrow> Inr d'))))"

text \<open>
  \<^verbatim>\<open>UPDATE t SET c1 = v1, ... WHERE p\<close> visits the rows in order; each new row is
  checked against the rows as they stand at that moment; the first failure aborts the
  statement and its changes.
\<close>

definition assign :: "(ident \<times> val) list \<Rightarrow> row \<Rightarrow> row" where
  "assign a r = map (\<lambda>(c, v). (c, case map_of a c of Some v' \<Rightarrow> v' | None \<Rightarrow> v)) r"

fun update_loop ::
  "db \<Rightarrow> (row \<Rightarrow> bool) \<Rightarrow> (ident \<times> val) list \<Rightarrow> row list \<Rightarrow> row list \<Rightarrow> error + row list" where
  "update_loop d p a seen [] = Inr seen"
| "update_loop d p a seen (r # rs) =
     (if p r then
        (case check_not_null (cols d) (assign a r) of
           Some e \<Rightarrow> Inl e
         | None \<Rightarrow>
             (case check_unique (idxs d) (seen @ rs) (assign a r) of
                Some e \<Rightarrow> Inl e
              | None \<Rightarrow> update_loop d p a (seen @ [assign a r]) rs))
      else update_loop d p a (seen @ [r]) rs)"

definition update_rows :: "db \<Rightarrow> (row \<Rightarrow> bool) \<Rightarrow> (ident \<times> val) list \<Rightarrow> error + db" where
  "update_rows d p a =
     (case unknown_col d (map fst a) of
        Some c \<Rightarrow> Inl (NoSuchColumn c)
      | None \<Rightarrow>
          (case update_loop d p a [] (rows d) of
             Inl e \<Rightarrow> Inl e
           | Inr rs \<Rightarrow> Inr (d\<lparr>rows := rs\<rparr>)))"

definition delete_rows :: "db \<Rightarrow> (row \<Rightarrow> bool) \<Rightarrow> db" where
  "delete_rows d p = d\<lparr>rows := filter (\<lambda>r. \<not> p r) (rows d)\<rparr>"

datatype dml =
    Insert row
  | Update "row \<Rightarrow> bool" "(ident \<times> val) list"
  | Delete "row \<Rightarrow> bool"

fun apply_dml :: "db \<Rightarrow> dml \<Rightarrow> error + db" where
  "apply_dml d (Insert r) = insert_row d r"
| "apply_dml d (Update p a) = update_rows d p a"
| "apply_dml d (Delete p) = Inr (delete_rows d p)"

text \<open>A history of writes: a write that fails leaves the store as it was.\<close>

definition step :: "db \<Rightarrow> dml \<Rightarrow> db" where
  "step d w = (case apply_dml d w of Inl e \<Rightarrow> d | Inr d' \<Rightarrow> d')"

definition run_dml :: "db \<Rightarrow> dml list \<Rightarrow> db" where
  "run_dml d ws = foldl step d ws"

fun insert_many :: "db \<Rightarrow> row list \<Rightarrow> error + db" where
  "insert_many d [] = Inr d"
| "insert_many d (r # rs) =
     (case insert_row d r of Inl e \<Rightarrow> Inl e | Inr d' \<Rightarrow> insert_many d' rs)"

section \<open>The migration\<close>

definition track_col :: column_def where
  "track_col = \<lparr>cname = ''track'', ctype = TEXT, cnotnull = True,
                cdefault = Some (Text ''quick''), creferences = None\<rparr>"

definition parent_task_id_col :: column_def where
  "parent_task_id_col = \<lparr>cname = ''parent_task_id'', ctype = BLOB, cnotnull = False,
                         cdefault = None, creferences = None\<rparr>"

definition phase_key_col :: column_def where
  "phase_key_col = \<lparr>cname = ''phase_key'', ctype = TEXT, cnotnull = False,
                    cdefault = None, creferences = None\<rparr>"

definition idx_tasks_parent_task_id :: index_def where
  "idx_tasks_parent_task_id = \<lparr>iname = ''idx_tasks_parent_task_id'', iunique = False,
                               icols = [''parent_task_id''], iwhere = None\<rparr>"

definition idx_tasks_track :: index_def where
  "idx_tasks_track = \<lparr>iname = ''idx_tasks_track'', iunique = False,
                      icols = [''track''], iwhere = None\<rparr>"

definition ux_tasks_parent_phase :: index_def where
  "ux_tasks_parent_phase = \<lparr>iname = ''ux_tasks_parent_phase'', iunique = True,
     icols = [''parent_task_id'', ''phase_key''],
     iwhere = Some (And (IsNotNull ''parent_task_id'') (IsNotNull ''phase_key''))\<rparr>"

definition column_additions :: "stmt list" where
  "column_additions =
     [AddColumn ''tasks'' track_col,
      AddColumn ''tasks'' parent_task_id_col,
      AddColumn ''tasks'' phase_key_col]"

definition index_creations :: "stmt list" where
  "index_creations =
     [CreateIndex True ''tasks'' idx_tasks_parent_task_id,
      CreateIndex True ''tasks'' idx_tasks_track,
      CreateIndex True ''tasks'' ux_tasks_parent_phase]"

definition migration :: "stmt list" where
  "migration = column_additions @ index_creations"

text \<open>The three columns the migration adds, read from a row.\<close>

abbreviation parent_of :: "row \<Rightarrow> val" where "parent_of r \<equiv> col r ''parent_task_id''"
abbreviation phase_of :: "row \<Rightarrow> val" where "phase_of r \<equiv> col r ''phase_key''"
abbreviation track_of :: "row \<Rightarrow> val" where "track_of r \<equiv> col r ''track''"

section \<open>A store to run the migration on\<close>

text \<open>
  A tasks table as an earlier migration may have left it (an id with its primary-key
  index, a title, one row), the same table after the migration, and rows to insert.
\<close>

definition example_base :: db where
  "example_base = \<lparr>tbl_name = ''tasks'',
     cols = [\<lparr>cname = ''id'', ctype = BLOB, cnotnull = True, cdefault = None, creferences = None\<rparr>,
             \<lparr>cname = ''title'', ctype = TEXT, cnotnull = True, cdefault = None, creferences = None\<rparr>],
     idxs = [\<lparr>iname = ''sqlite_autoindex_tasks_1'', iunique = True, icols = [''id''], iwhere = None\<rparr>],
     rows = [[(''id'', Blob [1]), (''title'', Text ''old'')]]\<rparr>"

definition example_migrated :: db where
  "example_migrated = \<lparr>tbl_name = ''tasks'',
     cols = [\<lparr>cname = ''id'', ctype = BLOB, cnotnull = True, cdefault = None, creferences = None\<rparr>,
             \<lparr>cname = ''title'', ctype = TEXT, cnotnull = True, cdefault = None, creferences = None\<rparr>,
             track_col, parent_task_id_col, phase_key_col],
     idxs = [\<lparr>iname = ''sqlite_autoindex_tasks_1'', iunique = True, icols = [''id''], iwhere = None\<rparr>,
             idx_tasks_parent_task_id, idx_tasks_track, ux_tasks_parent_phase],
     rows = [[(''id'', Blob [1]), (''title'', Text ''old''), (''track'', Text ''quick''),
              (''parent_task_id'', Null), (''phase_key'', Null)]]\<rparr>"

definition example_design :: row where
  "example_design = [(''id'', Blob [2]), (''title'', Text ''B''),
     (''parent_task_id'', Blob [1]), (''phase_key'', Text ''design'')]"

definition example_design_again :: row where
  "example_design_again = [(''id'', Blob [4]), (''title'', Text ''D''),
     (''parent_task_id'', Blob [1]), (''phase_key'', Text ''design'')]"

definition example_unphased :: "row list" where
  "example_unphased =
     [[(''id'', Blob [5]), (''title'', Text ''top-level'')],
      [(''id'', Blob [6]), (''title'', Text ''also top-level''), (''phase_key'', Text ''design'')],
      [(''id'', Blob [7]), (''title'', Text ''child''), (''parent_task_id'', Blob [1])],
      [(''id'', Blob [8]), (''title'', Text ''sibling''), (''parent_task_id'', Blob [1])],
      [(''id'', Blob [9]), (''title'', Text ''another''), (''phase_key'', Text ''design'')]]"

definition example_parent :: row where
  "example_parent = [(''id'', Blob [10]), (''title'', Text ''A'')]"

definition example_child_design :: row where
  "example_child_design = [(''id'', Blob [11]), (''title'', Text ''B''),
     (''parent_task_id'', Blob [10]), (''phase_key'', Text ''design'')]"

definition example_child_review :: row where
  "example_child_review = [(''id'', Blob [12]), (''title'', Text ''C''),
     (''parent_task_id'', Blob [10]), (''phase_key'', Text ''review'')]"

definition example_child_design2 :: row where
  "example_child_design2 = [(''id'', Blob [13]), (''title'', Text ''D''),
     (''parent_task_id'', Blob [10]), (''phase_key'', Text ''design'')]"

definition example_untracked :: row where
  "example_untracked = [(''id'', Blob [20]), (''title'', Text ''no track given'')]"

definition example_partial :: db where
  "example_partial = \<lparr>tbl_name = ''tasks'',
     cols = [\<lparr>cname = ''id'', ctype = BLOB, cnotnull = True, cdefault = None, creferences = None\<rparr>,
             \<lparr>cname = ''title'', ctype = TEXT, cnotnull = True, cdefault = None, creferences = None\<rparr>,
             parent_task_id_col],
     idxs = [\<lparr>iname = ''sqlite_autoindex_tasks_1'', iunique = True, icols = [''id''], iwhere = None\<rparr>],
     rows = [[(''id'', Blob [1]), (''title'', Text ''old''), (''parent_task_id'', Null)]]\<rparr>"

definition example_dangling :: row where
  "example_dangling = [(''id'', Blob [30]), (''title'', Text ''orphan''),
     (''parent_task_id'', Blob [99]), (''phase_key'', Text ''design'')]"

text \<open>
  The migrated table as it would be, had the second statement read
  \<^verbatim>\<open>ADD COLUMN parent_task_id BLOB NULL REFERENCES tasks(id)\<close>.
\<close>

definition example_referencing :: db where
  "example_referencing = example_migrated\<lparr>cols :=
     [\<lparr>cname = ''id'', ctype = BLOB, cnotnull = True, cdefault = None, creferences = None\<rparr>,
      \<lparr>cname = ''title'', ctype = TEXT, cnotnull = True, cdefault = None, creferences = None\<rparr>,
      track_col,
      parent_task_id_col\<lparr>creferences := Some (''tasks'', ''id'')\<rparr>,
      phase_key_col]\<rparr>"

section \<open>The related-tasks list of the dialog\<close>

text \<open>
  \<^verbatim>\<open>ViewRelatedTasksDialog.tsx\<close>, lines 48 to 62. A \<^verbatim>\<open>Task\<close> is read through
  its \<^verbatim>\<open>id\<close> (the field \<open>task_id\<close> here), \<^verbatim>\<open>title\<close> and
  \<^verbatim>\<open>description\<close>. The JavaScript \<^verbatim>\<open>Map\<close> keeps its keys in insertion
  order: \<^verbatim>\<open>set\<close> on a key it has replaces the value where the key stands,
  \<^verbatim>\<open>set\<close> on a new key appends. The two guards
  \<^verbatim>\<open>if (relationships?.parent_task)\<close> and \<^verbatim>\<open>if (relationships?.children)\<close>
  pass when the object is there; \<^verbatim>\<open>taskChildren\<close> is the hook's data, or the
  empty list while there is none.
\<close>

record Task =
  task_id :: string
  title :: string
  description :: "string option"

record TaskRelationships =
  parent_task :: "Task option"
  children :: "Task list option"

fun map_set :: "(string \<times> 'v) list \<Rightarrow> string \<Rightarrow> 'v \<Rightarrow> (string \<times> 'v) list" where
  "map_set [] k v = [(k, v)]"
| "map_set ((k', v') # m) k v =
     (if k' = k then (k, v) # m else (k', v') # map_set m k v)"

definition map_values :: "(string \<times> 'v) list \<Rightarrow> 'v list" where
  "map_values m = map snd m"

definition set_all :: "(string \<times> Task) list \<Rightarrow> Task list \<Rightarrow> (string \<times> Task) list" where
  "set_all byId ts = foldl (\<lambda>m child. map_set m (task_id child) child) byId ts"

definition relatedTasks :: "TaskRelationships option \<Rightarrow> Task list \<Rightarrow> Task list" where
  "relatedTasks relationships taskChildren =
     (let byId = [];
          byId = (case Option.bind relationships parent_task of
                    Some p \<Rightarrow> map_set byId (task_id p) p
                  | None \<Rightarrow> byId);
          byId = (case Option.bind relationships children of
                    Some cs \<Rightarrow> set_all byId cs
                  | None \<Rightarrow> byId);
          byId = set_all byId taskChildren
      in map_values byId)"

text \<open>The tasks in the order the dialog processes them: parent, children, taskChildren.\<close>

definition processed :: "TaskRelationships option \<Rightarrow> Task list \<Rightarrow> Task list" where
  "processed relationships taskChildren =
     (case Option.bind relationships parent_task of Some p \<Rightarrow> [p] | None \<Rightarrow> []) @
     (case Option.bind relationships children of Some cs \<Rightarrow> cs | None \<Rightarrow> []) @
     taskChildren"

text \<open>The map's invariant: keys are distinct, and each entry is filed under its task's id.\<close>

definition keyed :: "(string \<times> Task) list \<Rightarrow> bool" where
  "keyed m = (distinct (map fst m) \<and> list_all (\<lambda>(k, t). k = task_id t) m)"

section \<open>The hook that fetches a task's children\<close>

text \<open>
  \<^verbatim>\<open>useTaskChildren.ts\<close>. An optional argument is an \<open>option\<close>; numbers that are
  only passed on are integers; the fields of the hook's \<^verbatim>\<open>Options\<close> carry the
  prefix \<open>opt\<close>, those of the object handed to \<^verbatim>\<open>useQuery\<close> keep their names.
  The query function awaits
  \<^verbatim>\<open>tasksApi.getChildren(taskId!)\<close>: the \<^verbatim>\<open>!\<close> is erased at compile time, so
  what a run of the function does is that call with \<^verbatim>\<open>taskId\<close> as it is, defined
  or not.
\<close>

datatype number_or_false = Number int | FalseValue

record Options =
  opt_enabled :: "bool option"
  opt_refetchInterval :: "number_or_false option"
  opt_staleTime :: "int option"
  opt_retry :: "number_or_false option"

datatype api_call = GetChildren "string option"

record UseQueryOptions =
  queryKey :: "string \<times> string option"
  queryFn :: api_call
  enabled :: bool
  refetchInterval :: number_or_false
  staleTime :: int
  retry :: number_or_false

text \<open>\<^verbatim>\<open>!!taskId\<close>: undefined and the empty string are falsy.\<close>

fun truthy :: "string option \<Rightarrow> bool" where
  "truthy None = False"
| "truthy (Some s) = (s \<noteq> [])"

text \<open>\<^verbatim>\<open>opts?.f ?? dflt\<close>: the default stands in when \<open>opts\<close> or the field is undefined.\<close>

definition nullish :: "'o option \<Rightarrow> ('o \<Rightarrow> 'a option) \<Rightarrow> 'a \<Rightarrow> 'a" where
  "nullish opts f dflt = (case Option.bind opts f of None \<Rightarrow> dflt | Some v \<Rightarrow> v)"

definition byTask :: "string option \<Rightarrow> string \<times> string option" where
  "byTask taskId = (''taskChildren'', taskId)"

definition useTaskChildren :: "string option \<Rightarrow> Options option \<Rightarrow> UseQueryOptions" where
  "useTaskChildren taskId opts =
     \<lparr>queryKey = byTask taskId,
      queryFn = GetChildren taskId,
      enabled = (nullish opts opt_enabled True \<and> truthy taskId),
      refetchInterval = nullish opts opt_refetchInterval FalseValue,
      staleTime = nullish opts opt_staleTime 10000,
      retry = nullish opts opt_retry (Number 2)\<rparr>"

text \<open>
  What \<^verbatim>\<open>useQuery\<close> does with these options, as far as the query function goes.
  A trigger starts a fetch or not. The automatic ones (mount, refetch interval, window
  focus, reconnect, invalidation) never do on a disabled query, and on an enabled one
  they do as far as the staleness of the data allows. The \<^verbatim>\<open>refetch\<close> of the
  returned result always does, enabled or not: the hook returns the whole result, and
  the dialog calls \<^verbatim>\<open>refetchChildren()\<close> from its retry button. A fetch runs the
  query function, and again up to \<^verbatim>\<open>retry\<close> times while it fails. So
  \<open>may_run\<close> bounds the triggers that fetch (exactly for \<open>Refetch\<close>, and for
  every trigger of a disabled query), and \<open>calls\<close> lists the first run of each such
  fetch: the calls a sequence of triggers makes are these, some of them repeated.
\<close>

datatype trigger = Mount | Interval | WindowFocus | Reconnect | Invalidate | Refetch

fun may_run :: "UseQueryOptions \<Rightarrow> trigger \<Rightarrow> bool" where
  "may_run q Refetch = True"
| "may_run q t = enabled q"

definition calls :: "UseQueryOptions \<Rightarrow> trigger list \<Rightarrow> api_call list" where
  "calls q ts = map (\<lambda>t. queryFn q) (filter (may_run q) ts)"

section \<open>Writes keep the schema and every unique index\<close>

lemma no_conflicts_append:
  "no_conflicts i (xs @ ys) =
     (no_conflicts i xs \<and> no_conflicts i ys \<and> (\<forall>x \<in> set xs. \<forall>y \<in> set ys. \<not> conflicts i x y))"
  by (induction xs) auto

lemma conflicts_sym: "conflicts i r s \<Longrightarrow> conflicts i s r"
  by (auto simp: conflicts_def)

lemma no_conflicts_filter: "no_conflicts i rs \<Longrightarrow> no_conflicts i (filter P rs)"
  by (induction rs) auto

lemma no_conflicts_nth:
  "no_conflicts i rs \<Longrightarrow> a < b \<Longrightarrow> b < length rs \<Longrightarrow> \<not> conflicts i (rs ! a) (rs ! b)"
proof (induction rs arbitrary: a b)
  case Nil
  then show ?case by simp
next
  case (Cons r rs)
  show ?case
  proof (cases a)
    case 0
    with Cons.prems show ?thesis by (cases b) auto
  next
    case (Suc a')
    with Cons.prems obtain b' where "b = Suc b'" by (cases b) auto
    with Suc Cons show ?thesis by auto
  qed
qed

lemma run_append:
  "run (a @ b) d = (case run a d of Inl e \<Rightarrow> Inl e | Inr d' \<Rightarrow> run b d')"
  by (induction a arbitrary: d) (auto split: sum.splits)

lemma find_SomeD: "find P xs = Some x \<Longrightarrow> x \<in> set xs \<and> P x"
  by (induction xs) (auto split: if_splits)

lemma find_rev_SomeD: "find P (rev xs) = Some x \<Longrightarrow> x \<in> set xs \<and> P x"
  using find_SomeD [of P "rev xs" x] by simp

lemma check_unique_None: "check_unique ixs rs r = None \<longleftrightarrow> (\<forall>i \<in> set ixs. \<not> violated i rs r)"
  by (auto simp: check_unique_def find_None_iff split: option.splits dest: find_rev_SomeD)

lemma check_unique_Some:
  "check_unique ixs rs r = Some e \<Longrightarrow> \<exists>i \<in> set ixs. e = UniqueFailed (iname i) \<and> violated i rs r"
  by (auto simp: check_unique_def split: option.splits dest: find_rev_SomeD)

lemma check_not_null_None:
  "check_not_null cs r = None \<longleftrightarrow> (\<forall>c \<in> set cs. cnotnull c \<longrightarrow> col r (cname c) \<noteq> Null)"
  by (auto simp: check_not_null_def find_None_iff split: option.splits dest: find_SomeD)

lemma check_not_null_Some:
  "check_not_null cs r = Some e \<Longrightarrow> \<exists>c \<in> set cs. e = NotNullFailed (cname c)"
  by (auto simp: check_not_null_def split: option.splits dest: find_SomeD)

lemma insert_row_Inr:
  "insert_row d r = Inr d' \<Longrightarrow>
     d' = d\<lparr>rows := rows d @ [complete (cols d) r]\<rparr> \<and>
     check_not_null (cols d) (complete (cols d) r) = None \<and>
     check_unique (idxs d) (rows d) (complete (cols d) r) = None"
  by (auto simp: insert_row_def split: option.splits)

lemma update_loop_unique:
  "update_loop d p a seen rs = Inr out \<Longrightarrow> i \<in> set (idxs d) \<Longrightarrow> iunique i \<Longrightarrow>
   no_conflicts i (seen @ rs) \<Longrightarrow> no_conflicts i out"
proof (induction rs arbitrary: seen)
  case Nil
  then show ?case by simp
next
  case (Cons r rs)
  show ?case
  proof (cases "p r")
    case False
    with Cons.prems have "update_loop d p a (seen @ [r]) rs = Inr out" by simp
    moreover from Cons.prems have "no_conflicts i ((seen @ [r]) @ rs)" by simp
    ultimately show ?thesis using Cons.IH Cons.prems(2,3) by blast
  next
    case True
    with Cons.prems(1) have u: "check_unique (idxs d) (seen @ rs) (assign a r) = None"
      and l: "update_loop d p a (seen @ [assign a r]) rs = Inr out"
      by (auto split: option.splits)
    from u Cons.prems(2,3) have nc: "\<forall>s \<in> set (seen @ rs). \<not> conflicts i (assign a r) s"
      by (auto simp: check_unique_None violated_def)
    with Cons.prems(4) have "no_conflicts i ((seen @ [assign a r]) @ rs)"
      by (auto simp: no_conflicts_append dest: conflicts_sym)
    with l show ?thesis using Cons.IH Cons.prems(2,3) by blast
  qed
qed

lemma update_rows_Inr:
  "update_rows d p a = Inr d' \<Longrightarrow> \<exists>out. update_loop d p a [] (rows d) = Inr out \<and> d' = d\<lparr>rows := out\<rparr>"
  unfolding update_rows_def by (simp split: option.splits sum.splits)

lemma apply_dml_schema:
  assumes "apply_dml d w = Inr d'"
  shows "tbl_name d' = tbl_name d \<and> cols d' = cols d \<and> idxs d' = idxs d"
proof (cases w)
  case (Insert r)
  with assms have "d' = d\<lparr>rows := rows d @ [complete (cols d) r]\<rparr>"
    using insert_row_Inr by simp
  then show ?thesis by simp
next
  case (Update p a)
  with assms obtain out where "d' = d\<lparr>rows := out\<rparr>"
    using update_rows_Inr by fastforce
  then show ?thesis by simp
next
  case (Delete p)
  with assms show ?thesis by (auto simp: delete_rows_def)
qed

lemma apply_dml_unique:
  assumes "apply_dml d w = Inr d'" "i \<in> set (idxs d)" "iunique i" "no_conflicts i (rows d)"
  shows "no_conflicts i (rows d')"
proof (cases w)
  case (Insert r)
  with assms(1) have d': "d' = d\<lparr>rows := rows d @ [complete (cols d) r]\<rparr>"
    and u: "check_unique (idxs d) (rows d) (complete (cols d) r) = None"
    using insert_row_Inr by auto
  from u assms(2,3) have "\<forall>s \<in> set (rows d). \<not> conflicts i (complete (cols d) r) s"
    by (auto simp: check_unique_None violated_def)
  with assms(4) show ?thesis
    by (auto simp: d' no_conflicts_append dest: conflicts_sym)
next
  case (Update p a)
  with assms(1) obtain out where "update_loop d p a [] (rows d) = Inr out" "rows d' = out"
    using update_rows_Inr by fastforce
  with assms(2-4) show ?thesis using update_loop_unique [of d p a "[]" "rows d" out i] by simp
next
  case (Delete p)
  with assms show ?thesis by (auto simp: delete_rows_def no_conflicts_filter)
qed

lemma step_schema:
  "tbl_name (step d w) = tbl_name d \<and> cols (step d w) = cols d \<and> idxs (step d w) = idxs d"
proof (cases "apply_dml d w")
  case (Inl e)
  then show ?thesis by (simp add: step_def)
next
  case (Inr d')
  from apply_dml_schema [OF Inr] Inr show ?thesis by (simp add: step_def)
qed

lemma step_unique:
  assumes "i \<in> set (idxs d)" "iunique i" "no_conflicts i (rows d)"
  shows "no_conflicts i (rows (step d w))"
proof (cases "apply_dml d w")
  case (Inl e)
  with assms show ?thesis by (simp add: step_def)
next
  case (Inr d')
  from apply_dml_unique [OF Inr assms] Inr show ?thesis by (simp add: step_def)
qed

lemma run_dml_schema:
  "tbl_name (run_dml d ws) = tbl_name d \<and> cols (run_dml d ws) = cols d \<and> idxs (run_dml d ws) = idxs d"
  unfolding run_dml_def by (induction ws arbitrary: d) (simp_all add: step_schema)

lemma run_dml_unique:
  "i \<in> set (idxs d) \<Longrightarrow> iunique i \<Longrightarrow> no_conflicts i (rows d) \<Longrightarrow> no_conflicts i (rows (run_dml d ws))"
  unfolding run_dml_def
proof (induction ws arbitrary: d)
  case Nil
  then show ?case by simp
next
  case (Cons w ws)
  have "i \<in> set (idxs (step d w))" using Cons.prems(1) by (simp add: step_schema)
  moreover have "no_conflicts i (rows (step d w))" using Cons.prems by (rule step_unique)
  ultimately show ?case using Cons.IH Cons.prems(2) by simp
qed

section \<open>What a successful run of the migration leaves\<close>

declare exec.simps [simp del]

lemma exec_AddColumn_Inr:
  "exec (AddColumn t cd) d = Inr d' \<Longrightarrow>
     t = tbl_name d \<and> cname cd \<notin> set (map cname (cols d)) \<and>
     d' = d\<lparr>cols := cols d @ [cd], rows := map (\<lambda>r. r @ [(cname cd, default_val cd)]) (rows d)\<rparr>"
  by (simp add: exec.simps split: if_splits)

lemma exec_CreateIndex_Inr:
  "exec (CreateIndex True t i) d = Inr d' \<Longrightarrow>
     t = tbl_name d \<and>
     (if iname i \<in> set (map iname (idxs d)) then d' = d
      else d' = d\<lparr>idxs := idxs d @ [i]\<rparr> \<and> (iunique i \<longrightarrow> no_conflicts i (rows d)))"
  by (simp add: exec.simps split: if_splits option.splits)

lemma run_Cons_Inr:
  "run (s # ss) d = Inr d' \<Longrightarrow> \<exists>d1. exec s d = Inr d1 \<and> run ss d1 = Inr d'"
  by (simp split: sum.splits)

lemma column_additions_Inr:
  assumes "run column_additions base = Inr d1"
  shows "tbl_name base = ''tasks'' \<and>
         ''track'' \<notin> set (map cname (cols base)) \<and>
         ''parent_task_id'' \<notin> set (map cname (cols base)) \<and>
         ''phase_key'' \<notin> set (map cname (cols base)) \<and>
         d1 = base\<lparr>cols := cols base @ [track_col, parent_task_id_col, phase_key_col],
                   rows := map (\<lambda>r. r @ [(''track'', Text ''quick''), (''parent_task_id'', Null),
                                           (''phase_key'', Null)]) (rows base)\<rparr>"
proof -
  from assms obtain da where a: "exec (AddColumn ''tasks'' track_col) base = Inr da"
    and ra: "run [AddColumn ''tasks'' parent_task_id_col, AddColumn ''tasks'' phase_key_col] da = Inr d1"
    unfolding column_additions_def using run_Cons_Inr by blast
  from ra obtain db where b: "exec (AddColumn ''tasks'' parent_task_id_col) da = Inr db"
    and rb: "run [AddColumn ''tasks'' phase_key_col] db = Inr d1"
    using run_Cons_Inr by blast
  from rb have c: "exec (AddColumn ''tasks'' phase_key_col) db = Inr d1"
    using run_Cons_Inr by fastforce
  note A = exec_AddColumn_Inr [OF a] and B = exec_AddColumn_Inr [OF b] and C = exec_AddColumn_Inr [OF c]
  from A have da: "da = base\<lparr>cols := cols base @ [track_col],
      rows := map (\<lambda>r. r @ [(''track'', Text ''quick'')]) (rows base)\<rparr>"
    by (simp add: track_col_def default_val_def)
  from B have db: "db = da\<lparr>cols := cols da @ [parent_task_id_col],
      rows := map (\<lambda>r. r @ [(''parent_task_id'', Null)]) (rows da)\<rparr>"
    by (simp add: parent_task_id_col_def default_val_def)
  from C have d1: "d1 = db\<lparr>cols := cols db @ [phase_key_col],
      rows := map (\<lambda>r. r @ [(''phase_key'', Null)]) (rows db)\<rparr>"
    by (simp add: phase_key_col_def default_val_def)
  have fresh: "''track'' \<notin> set (map cname (cols base))"
     "''parent_task_id'' \<notin> set (map cname (cols base))"
     "''phase_key'' \<notin> set (map cname (cols base))"
    using A B C by (simp_all add: da db track_col_def parent_task_id_col_def phase_key_col_def)
  have "d1 = base\<lparr>cols := cols base @ [track_col, parent_task_id_col, phase_key_col],
                   rows := map (\<lambda>r. r @ [(''track'', Text ''quick''), (''parent_task_id'', Null),
                                           (''phase_key'', Null)]) (rows base)\<rparr>"
    by (simp add: d1 db da comp_def)
  with fresh A show ?thesis by simp
qed


lemma exec_CreateIndex_facts:
  assumes "exec (CreateIndex True t i) d = Inr d'"
  shows "t = tbl_name d" "tbl_name d' = tbl_name d" "cols d' = cols d" "rows d' = rows d"
    "iname i \<in> iname ` set (idxs d')"
    "iname ` set (idxs d') = insert (iname i) (iname ` set (idxs d))"
    "set (idxs d) \<subseteq> set (idxs d')"
    "iname i \<notin> iname ` set (idxs d) \<Longrightarrow> i \<in> set (idxs d') \<and> (iunique i \<longrightarrow> no_conflicts i (rows d'))"
  using exec_CreateIndex_Inr [OF assms] by (auto split: if_splits)

lemma index_creations_Inr:
  assumes "run index_creations d1 = Inr d0"
  shows "tbl_name d1 = ''tasks''" "tbl_name d0 = tbl_name d1" "cols d0 = cols d1" "rows d0 = rows d1"
    "set (idxs d1) \<subseteq> set (idxs d0)"
    "{''idx_tasks_parent_task_id'', ''idx_tasks_track'', ''ux_tasks_parent_phase''}
       \<subseteq> iname ` set (idxs d0)"
    "''ux_tasks_parent_phase'' \<notin> iname ` set (idxs d1) \<Longrightarrow>
       ux_tasks_parent_phase \<in> set (idxs d0) \<and> no_conflicts ux_tasks_parent_phase (rows d0)"
proof -
  from assms obtain da where a: "exec (CreateIndex True ''tasks'' idx_tasks_parent_task_id) d1 = Inr da"
    and ra: "run [CreateIndex True ''tasks'' idx_tasks_track,
                  CreateIndex True ''tasks'' ux_tasks_parent_phase] da = Inr d0"
    unfolding index_creations_def using run_Cons_Inr by blast
  from ra obtain db where b: "exec (CreateIndex True ''tasks'' idx_tasks_track) da = Inr db"
    and rb: "run [CreateIndex True ''tasks'' ux_tasks_parent_phase] db = Inr d0"
    using run_Cons_Inr by blast
  from rb have c: "exec (CreateIndex True ''tasks'' ux_tasks_parent_phase) db = Inr d0"
    using run_Cons_Inr by fastforce
  note A = exec_CreateIndex_facts [OF a] and B = exec_CreateIndex_facts [OF b]
    and C = exec_CreateIndex_facts [OF c]
  have n1: "iname idx_tasks_parent_task_id = ''idx_tasks_parent_task_id''"
    and n2: "iname idx_tasks_track = ''idx_tasks_track''"
    and n3: "iname ux_tasks_parent_phase = ''ux_tasks_parent_phase''"
    and u3: "iunique ux_tasks_parent_phase"
    by (simp_all add: idx_tasks_parent_task_id_def idx_tasks_track_def ux_tasks_parent_phase_def)
  show "tbl_name d1 = ''tasks''" using A(1) by simp
  show "tbl_name d0 = tbl_name d1" using A(2) B(2) C(2) by simp
  show "cols d0 = cols d1" using A(3) B(3) C(3) by simp
  show "rows d0 = rows d1" using A(4) B(4) C(4) by simp
  show "set (idxs d1) \<subseteq> set (idxs d0)" using A(7) B(7) C(7) by blast
  show "{''idx_tasks_parent_task_id'', ''idx_tasks_track'', ''ux_tasks_parent_phase''}
       \<subseteq> iname ` set (idxs d0)"
    using A(6) B(6) C(6) by (simp add: n1 n2 n3)
  show "ux_tasks_parent_phase \<in> set (idxs d0) \<and> no_conflicts ux_tasks_parent_phase (rows d0)"
    if "''ux_tasks_parent_phase'' \<notin> iname ` set (idxs d1)"
  proof -
    from that have "''ux_tasks_parent_phase'' \<notin> iname ` set (idxs db)"
      using A(6) B(6) by (simp add: n1 n2)
    then show ?thesis using C(8) by (simp add: n3 u3)
  qed
qed

lemma migration_Inr:
  assumes "run migration base = Inr d0"
  shows "tbl_name base = ''tasks''" "tbl_name d0 = ''tasks''"
    "''track'' \<notin> cname ` set (cols base)"
    "''parent_task_id'' \<notin> cname ` set (cols base)"
    "''phase_key'' \<notin> cname ` set (cols base)"
    "cols d0 = cols base @ [track_col, parent_task_id_col, phase_key_col]"
    "rows d0 = map (\<lambda>r. r @ [(''track'', Text ''quick''), (''parent_task_id'', Null),
                              (''phase_key'', Null)]) (rows base)"
    "set (idxs base) \<subseteq> set (idxs d0)"
    "{''idx_tasks_parent_task_id'', ''idx_tasks_track'', ''ux_tasks_parent_phase''}
       \<subseteq> iname ` set (idxs d0)"
    "''ux_tasks_parent_phase'' \<notin> iname ` set (idxs base) \<Longrightarrow>
       ux_tasks_parent_phase \<in> set (idxs d0) \<and> no_conflicts ux_tasks_parent_phase (rows d0)"
proof -
  from assms obtain d1 where c: "run column_additions base = Inr d1"
    and i: "run index_creations d1 = Inr d0"
    unfolding migration_def run_append by (auto split: sum.splits)
  note C = column_additions_Inr [OF c] and I = index_creations_Inr [OF i]
  from C have d1: "tbl_name d1 = tbl_name base" "idxs d1 = idxs base"
    "cols d1 = cols base @ [track_col, parent_task_id_col, phase_key_col]"
    "rows d1 = map (\<lambda>r. r @ [(''track'', Text ''quick''), (''parent_task_id'', Null),
                              (''phase_key'', Null)]) (rows base)"
    by simp_all
  show "tbl_name base = ''tasks''" using C by simp
  show "tbl_name d0 = ''tasks''" using I(1,2) by simp
  show "''track'' \<notin> cname ` set (cols base)" "''parent_task_id'' \<notin> cname ` set (cols base)"
    "''phase_key'' \<notin> cname ` set (cols base)" using C by simp_all
  show "cols d0 = cols base @ [track_col, parent_task_id_col, phase_key_col]"
    using I(3) d1(3) by simp
  show "rows d0 = map (\<lambda>r. r @ [(''track'', Text ''quick''), (''parent_task_id'', Null),
                              (''phase_key'', Null)]) (rows base)"
    using I(4) d1(4) by simp
  show "set (idxs base) \<subseteq> set (idxs d0)" using I(5) d1(2) by simp
  show "{''idx_tasks_parent_task_id'', ''idx_tasks_track'', ''ux_tasks_parent_phase''}
       \<subseteq> iname ` set (idxs d0)" using I(6) .
  show "ux_tasks_parent_phase \<in> set (idxs d0) \<and> no_conflicts ux_tasks_parent_phase (rows d0)"
    if "''ux_tasks_parent_phase'' \<notin> iname ` set (idxs base)"
    using I(7) that d1(2) by simp
qed

section \<open>Inserting into the migrated table\<close>

lemma find_append:
  "find P (xs @ ys) = (case find P xs of None \<Rightarrow> find P ys | Some x \<Rightarrow> Some x)"
  by (induction xs) auto

lemma map_of_complete:
  "map_of (complete cs r) c =
     (case find (\<lambda>cd. cname cd = c) cs of
        None \<Rightarrow> None
      | Some cd \<Rightarrow> Some (case map_of r c of Some v \<Rightarrow> v | None \<Rightarrow> default_val cd))"
  by (induction cs) (auto simp: complete_def)

lemma find_fresh: "c \<notin> cname ` set cs \<Longrightarrow> find (\<lambda>cd. cname cd = c) cs = None"
  by (auto simp: find_None_iff)

lemma migrated_complete:
  assumes "cols d = cs @ [track_col, parent_task_id_col, phase_key_col]"
    and "''track'' \<notin> cname ` set cs" "''parent_task_id'' \<notin> cname ` set cs"
    and "''phase_key'' \<notin> cname ` set cs"
  shows "track_of (complete (cols d) r) = (case map_of r ''track'' of Some v \<Rightarrow> v | None \<Rightarrow> Text ''quick'')"
    and "parent_of (complete (cols d) r) = parent_of r"
    and "phase_of (complete (cols d) r) = phase_of r"
  using assms
  by (simp_all add: col_def map_of_complete find_append find_fresh track_col_def
      parent_task_id_col_def phase_key_col_def default_val_def split: option.splits)

lemma conflicts_ux:
  "conflicts ux_tasks_parent_phase r s \<longleftrightarrow>
     parent_of r \<noteq> Null \<and> phase_of r \<noteq> Null \<and> parent_of r = parent_of s \<and> phase_of r = phase_of s"
  by (auto simp: conflicts_def in_index_def key_of_def ux_tasks_parent_phase_def)

lemma insert_row_rejected:
  assumes "unknown_col d (map fst r) = None" "i \<in> set (idxs d)"
    and "violated i (rows d) (complete (cols d) r)"
  shows "\<exists>e. insert_row d r = Inl e \<and> constraint_violation e"
proof (cases "check_not_null (cols d) (complete (cols d) r)")
  case (Some e)
  with check_not_null_Some [OF Some] assms(1) show ?thesis
    by (auto simp: insert_row_def)
next
  case None
  from assms(2,3) have "check_unique (idxs d) (rows d) (complete (cols d) r) \<noteq> None"
    by (auto simp: check_unique_None)
  then obtain e where e: "check_unique (idxs d) (rows d) (complete (cols d) r) = Some e" by auto
  from check_unique_Some [OF e] have "constraint_violation e" by auto
  with e None assms(1) show ?thesis by (simp add: insert_row_def)
qed


lemma reachable_facts:
  assumes "run migration base = Inr d0" and "d = run_dml d0 ws"
  shows "tbl_name d = ''tasks''"
    "cols d = cols base @ [track_col, parent_task_id_col, phase_key_col]"
    "idxs d = idxs d0"
    "''ux_tasks_parent_phase'' \<notin> iname ` set (idxs base) \<Longrightarrow>
       ux_tasks_parent_phase \<in> set (idxs d) \<and> no_conflicts ux_tasks_parent_phase (rows d)"
proof -
  note M = migration_Inr [OF assms(1)]
  show "tbl_name d = ''tasks''" using M(2) assms(2) by (simp add: run_dml_schema)
  show "cols d = cols base @ [track_col, parent_task_id_col, phase_key_col]"
    using M(6) assms(2) by (simp add: run_dml_schema)
  show "idxs d = idxs d0" using assms(2) by (simp add: run_dml_schema)
  show "ux_tasks_parent_phase \<in> set (idxs d) \<and> no_conflicts ux_tasks_parent_phase (rows d)"
    if "''ux_tasks_parent_phase'' \<notin> iname ` set (idxs base)"
  proof -
    from M(10) [OF that] have "ux_tasks_parent_phase \<in> set (idxs d0)"
      and "no_conflicts ux_tasks_parent_phase (rows d0)" by simp_all
    moreover have "iunique ux_tasks_parent_phase" by (simp add: ux_tasks_parent_phase_def)
    ultimately show ?thesis
      using run_dml_unique [of ux_tasks_parent_phase d0 ws] assms(2)
      by (simp add: run_dml_schema)
  qed
qed

section \<open>The uniqueness of a phase under a parent\<close>

text \<open>
  C1. Take any store the migration has run on (the index name being free before), and
  any history of inserts, updates and deletes after it. No two rows of the store carry
  the same non-null \<^verbatim>\<open>parent_task_id\<close> together with the same non-null
  \<^verbatim>\<open>phase_key\<close>; and while a row T1 with such a pair is stored, an insert of
  a row T2 with the same pair is rejected with a constraint violation.
\<close>

theorem phase_pair_unique:
  assumes "run migration base = Inr d0"
    and "''ux_tasks_parent_phase'' \<notin> iname ` set (idxs base)"
    and "d = run_dml d0 ws"
  shows "(\<forall>a b. a < length (rows d) \<and> b < length (rows d) \<and> a \<noteq> b \<and>
            parent_of (rows d ! a) \<noteq> Null \<and> phase_of (rows d ! a) \<noteq> Null \<longrightarrow>
            \<not> (parent_of (rows d ! a) = parent_of (rows d ! b) \<and>
               phase_of (rows d ! a) = phase_of (rows d ! b))) \<and>
         (\<forall>t1 \<in> set (rows d). \<forall>t2.
            unknown_col d (map fst t2) = None \<and>
            parent_of t1 \<noteq> Null \<and> phase_of t1 \<noteq> Null \<and>
            parent_of t2 = parent_of t1 \<and> phase_of t2 = phase_of t1 \<longrightarrow>
            (\<exists>e. insert_row d t2 = Inl e \<and> constraint_violation e))"
proof (intro conjI allI ballI impI)
  note R = reachable_facts [OF assms(1,3)]
  note M = migration_Inr [OF assms(1)]
  from R(4) [OF assms(2)] have ux: "ux_tasks_parent_phase \<in> set (idxs d)"
    and nc: "no_conflicts ux_tasks_parent_phase (rows d)" by simp_all
  {
    fix a b
    assume h: "a < length (rows d) \<and> b < length (rows d) \<and> a \<noteq> b \<and>
            parent_of (rows d ! a) \<noteq> Null \<and> phase_of (rows d ! a) \<noteq> Null"
    show "\<not> (parent_of (rows d ! a) = parent_of (rows d ! b) \<and>
               phase_of (rows d ! a) = phase_of (rows d ! b))"
    proof
      assume eq: "parent_of (rows d ! a) = parent_of (rows d ! b) \<and>
               phase_of (rows d ! a) = phase_of (rows d ! b)"
      with h have c: "conflicts ux_tasks_parent_phase (rows d ! a) (rows d ! b)"
        by (simp add: conflicts_ux)
      from h consider "a < b" | "b < a" by linarith
      then show False
      proof cases
        case 1
        with nc h c show False using no_conflicts_nth by blast
      next
        case 2
        from c have "conflicts ux_tasks_parent_phase (rows d ! b) (rows d ! a)"
          by (rule conflicts_sym)
        with 2 nc h show False using no_conflicts_nth by blast
      qed
    qed
  }
  {
    fix t1 t2
    assume t1: "t1 \<in> set (rows d)"
      and h: "unknown_col d (map fst t2) = None \<and>
            parent_of t1 \<noteq> Null \<and> phase_of t1 \<noteq> Null \<and>
            parent_of t2 = parent_of t1 \<and> phase_of t2 = phase_of t1"
    have "parent_of (complete (cols d) t2) = parent_of t2"
      and "phase_of (complete (cols d) t2) = phase_of t2"
      using migrated_complete [OF R(2) M(3,4,5)] by simp_all
    with h have "conflicts ux_tasks_parent_phase (complete (cols d) t2) t1"
      by (simp add: conflicts_ux)
    with t1 have "violated ux_tasks_parent_phase (rows d) (complete (cols d) t2)"
      by (auto simp: violated_def ux_tasks_parent_phase_def)
    with h ux show "\<exists>e. insert_row d t2 = Inl e \<and> constraint_violation e"
      using insert_row_rejected by blast
  }
qed

theorem phase_pair_unique_witness:
  "run migration example_base = Inr example_migrated \<and>
   ''ux_tasks_parent_phase'' \<notin> iname ` set (idxs example_base) \<and>
   complete (cols example_migrated) example_design
      \<in> set (rows (run_dml example_migrated [Insert example_design])) \<and>
   (\<exists>e. insert_row (run_dml example_migrated [Insert example_design]) example_design_again = Inl e \<and>
        constraint_violation e)"
proof -
  have m: "run migration example_base = Inr example_migrated" by code_simp
  have f: "''ux_tasks_parent_phase'' \<notin> iname ` set (idxs example_base)"
    by (simp add: example_base_def)
  have s: "rows (run_dml example_migrated [Insert example_design]) =
     rows example_migrated @ [complete (cols example_migrated) example_design]"
    by code_simp
  have c: "cols (run_dml example_migrated [Insert example_design]) = cols example_migrated"
    by (simp add: run_dml_schema)
  have u: "unknown_col (run_dml example_migrated [Insert example_design])
             (map fst example_design_again) = None"
    by code_simp
  have v: "parent_of (complete (cols example_migrated) example_design) \<noteq> Null \<and>
           phase_of (complete (cols example_migrated) example_design) \<noteq> Null \<and>
           parent_of example_design_again = parent_of (complete (cols example_migrated) example_design) \<and>
           phase_of example_design_again = phase_of (complete (cols example_migrated) example_design)"
    by code_simp
  from phase_pair_unique [OF m f refl, of "[Insert example_design]"] s u v
  show ?thesis using m f by simp
qed

lemma unknown_col_cols: "cols d' = cols d \<Longrightarrow> unknown_col d' cs = unknown_col d cs"
  by (simp add: unknown_col_def)

lemma insert_row_ok:
  assumes "unknown_col d (map fst r) = None"
    and "check_not_null (cols d) (complete (cols d) r) = None"
    and "\<forall>i \<in> set (idxs d). \<not> violated i (rows d) (complete (cols d) r)"
  shows "insert_row d r = Inr (d\<lparr>rows := rows d @ [complete (cols d) r]\<rparr>)"
  using assms check_unique_None [of "idxs d" "rows d" "complete (cols d) r"]
  by (simp add: insert_row_def)

lemma insert_many_ok:
  assumes "\<forall>r \<in> set rs. unknown_col d (map fst r) = None \<and>
             check_not_null (cols d) (complete (cols d) r) = None"
    and "\<forall>i \<in> set (idxs d). iunique i \<longrightarrow>
           (\<forall>r \<in> set rs. \<forall>s. \<not> conflicts i (complete (cols d) r) s) \<or>
           no_conflicts i (rows d @ map (complete (cols d)) rs)"
  shows "insert_many d rs = Inr (d\<lparr>rows := rows d @ map (complete (cols d)) rs\<rparr>)"
  using assms
proof (induction rs arbitrary: d)
  case Nil
  then show ?case by simp
next
  case (Cons r rs)
  let ?r = "complete (cols d) r"
  let ?d = "d\<lparr>rows := rows d @ [?r]\<rparr>"
  have nv: "\<forall>i \<in> set (idxs d). \<not> violated i (rows d) ?r"
  proof
    fix i assume i: "i \<in> set (idxs d)"
    show "\<not> violated i (rows d) ?r"
    proof (cases "iunique i")
      case False
      then show ?thesis by (simp add: violated_def)
    next
      case True
      with Cons.prems(2) i consider "\<forall>s. \<not> conflicts i ?r s"
        | "no_conflicts i (rows d @ map (complete (cols d)) (r # rs))" by auto
      then show ?thesis
      proof cases
        case 1
        then show ?thesis by (simp add: violated_def)
      next
        case 2
        then have "\<forall>s \<in> set (rows d). \<not> conflicts i s ?r"
          by (simp add: no_conflicts_append)
        then show ?thesis by (auto simp: violated_def dest: conflicts_sym)
      qed
    qed
  qed
  have ins: "insert_row d r = Inr ?d"
    using Cons.prems(1) nv by (simp add: insert_row_ok)
  have "insert_many ?d rs = Inr (?d\<lparr>rows := rows ?d @ map (complete (cols ?d)) rs\<rparr>)"
  proof (rule Cons.IH)
    show "\<forall>r \<in> set rs. unknown_col ?d (map fst r) = None \<and>
             check_not_null (cols ?d) (complete (cols ?d) r) = None"
      using Cons.prems(1) by (simp add: unknown_col_def)
    show "\<forall>i \<in> set (idxs ?d). iunique i \<longrightarrow>
           (\<forall>r \<in> set rs. \<forall>s. \<not> conflicts i (complete (cols ?d) r) s) \<or>
           no_conflicts i (rows ?d @ map (complete (cols ?d)) rs)"
      using Cons.prems(2) by auto
  qed
  with ins show ?case by simp
qed

section \<open>Rows without a phase or without a parent\<close>

text \<open>
  C2. In any store reached after the migration, rows whose \<^verbatim>\<open>parent_task_id\<close>
  or \<^verbatim>\<open>phase_key\<close> is null are never held back by the unique index on the
  pair: any number of them, inserted one after the other, all go in, as long as each
  fills the NOT NULL columns and the rows satisfy the table's other unique indexes.
\<close>

theorem null_pair_never_rejected:
  assumes "run migration base = Inr d0" and "d = run_dml d0 ws"
    and "\<forall>r \<in> set rs. parent_of r = Null \<or> phase_of r = Null"
    and "\<forall>r \<in> set rs. unknown_col d (map fst r) = None \<and>
           check_not_null (cols d) (complete (cols d) r) = None"
    and "\<forall>i \<in> set (idxs d). iunique i \<and> i \<noteq> ux_tasks_parent_phase \<longrightarrow>
           no_conflicts i (rows d @ map (complete (cols d)) rs)"
  shows "insert_many d rs = Inr (d\<lparr>rows := rows d @ map (complete (cols d)) rs\<rparr>)"
proof (rule insert_many_ok [OF assms(4)])
  note R = reachable_facts [OF assms(1,2)]
  note M = migration_Inr [OF assms(1)]
  note K = migrated_complete [OF R(2) M(3,4,5)]
  show "\<forall>i \<in> set (idxs d). iunique i \<longrightarrow>
           (\<forall>r \<in> set rs. \<forall>s. \<not> conflicts i (complete (cols d) r) s) \<or>
           no_conflicts i (rows d @ map (complete (cols d)) rs)"
  proof (intro ballI impI)
    fix i assume i: "i \<in> set (idxs d)" "iunique i"
    show "(\<forall>r \<in> set rs. \<forall>s. \<not> conflicts i (complete (cols d) r) s) \<or>
           no_conflicts i (rows d @ map (complete (cols d)) rs)"
    proof (cases "i = ux_tasks_parent_phase")
      case True
      with assms(3) show ?thesis by (auto simp: conflicts_ux K)
    next
      case False
      with i assms(5) show ?thesis by simp
    qed
  qed
qed

theorem null_pair_never_rejected_witness:
  "run migration example_base = Inr example_migrated \<and>
   list_all (\<lambda>r. parent_of r = Null \<or> phase_of r = Null) example_unphased \<and>
   insert_many example_migrated example_unphased =
     Inr (example_migrated\<lparr>rows := rows example_migrated @
            map (complete (cols example_migrated)) example_unphased\<rparr>)"
proof -
  have m: "run migration example_base = Inr example_migrated" by code_simp
  have e: "example_migrated = run_dml example_migrated []" by (simp add: run_dml_def)
  have n: "\<forall>r \<in> set example_unphased. parent_of r = Null \<or> phase_of r = Null"
    by code_simp
  have k: "\<forall>r \<in> set example_unphased. unknown_col example_migrated (map fst r) = None \<and>
           check_not_null (cols example_migrated) (complete (cols example_migrated) r) = None"
    by code_simp
  have u: "\<forall>i \<in> set (idxs example_migrated). iunique i \<and> i \<noteq> ux_tasks_parent_phase \<longrightarrow>
           no_conflicts i (rows example_migrated @
             map (complete (cols example_migrated)) example_unphased)"
    by code_simp
  from null_pair_never_rejected [OF m e n k u] m n show ?thesis by (simp add: list_all_iff)
qed

section \<open>The scenario of a parent with two phases\<close>

lemma violated_ux:
  "violated ux_tasks_parent_phase rs r \<longleftrightarrow>
     parent_of r \<noteq> Null \<and> phase_of r \<noteq> Null \<and>
     (\<exists>s \<in> set rs. parent_of s = parent_of r \<and> phase_of s = phase_of r)"
proof -
  have "iunique ux_tasks_parent_phase" by (simp add: ux_tasks_parent_phase_def)
  then show ?thesis unfolding violated_def conflicts_ux by (simp, metis)
qed

text \<open>
  C4. In a store reached after the migration where no task has parent \<open>p\<close> yet: task A
  (no parent, no phase) goes in, then child B with parent \<open>p\<close> and phase "design".
  Child C with parent \<open>p\<close> and phase "review" is then not held back by the unique
  index on the pair, and goes in when it passes the table's other constraints; after
  it, D with parent \<open>p\<close> and phase "design" is rejected with a constraint violation.
\<close>

theorem design_review_scenario:
  assumes "run migration base = Inr d0"
    and "''ux_tasks_parent_phase'' \<notin> iname ` set (idxs base)"
    and "d = run_dml d0 ws"
    and "\<forall>r \<in> set (rows d). parent_of r \<noteq> p"
    and "parent_of A = Null" "phase_of A = Null" "insert_row d A = Inr dA"
    and "parent_of B = p" "phase_of B = Text ''design''" "p \<noteq> Null" "insert_row dA B = Inr dB"
    and "parent_of C = p" "phase_of C = Text ''review''"
    and "unknown_col dB (map fst C) = None"
    and "check_not_null (cols dB) (complete (cols dB) C) = None"
    and "\<forall>i \<in> set (idxs dB). i \<noteq> ux_tasks_parent_phase \<longrightarrow>
           \<not> violated i (rows dB) (complete (cols dB) C)"
    and "parent_of D = p" "phase_of D = Text ''design''"
    and "unknown_col dB (map fst D) = None"
  shows "\<not> violated ux_tasks_parent_phase (rows dB) (complete (cols dB) C) \<and>
         insert_row dB C = Inr (dB\<lparr>rows := rows dB @ [complete (cols dB) C]\<rparr>) \<and>
         (\<exists>e. insert_row (dB\<lparr>rows := rows dB @ [complete (cols dB) C]\<rparr>) D = Inl e \<and>
              constraint_violation e)"
proof -
  note R = reachable_facts [OF assms(1,3)]
  note M = migration_Inr [OF assms(1)]
  note iA = insert_row_Inr [OF assms(7)] and iB = insert_row_Inr [OF assms(11)]
  from iA iB have cB: "cols dB = cols d" and xB: "idxs dB = idxs d" by simp_all
  have rB: "rows dB = rows d @ [complete (cols d) A, complete (cols d) B]"
    using iA iB by simp
  note K = migrated_complete [OF R(2) M(3,4,5)]
  have nv: "\<not> violated ux_tasks_parent_phase (rows dB) (complete (cols dB) C)"
    using assms(4,5,6,8,9,10,12,13) by (auto simp: violated_ux rB cB K)
  with assms(16) have "\<forall>i \<in> set (idxs dB). \<not> violated i (rows dB) (complete (cols dB) C)"
    by auto
  with assms(14,15) have iC: "insert_row dB C = Inr (dB\<lparr>rows := rows dB @ [complete (cols dB) C]\<rparr>)"
    by (rule insert_row_ok)
  let ?dC = "dB\<lparr>rows := rows dB @ [complete (cols dB) C]\<rparr>"
  have "violated ux_tasks_parent_phase (rows ?dC) (complete (cols ?dC) D)"
    using assms(8,9,10,17,18) by (auto simp: violated_ux rB cB K)
  moreover have "ux_tasks_parent_phase \<in> set (idxs ?dC)"
    using R(4) [OF assms(2)] xB by simp
  moreover have "unknown_col ?dC (map fst D) = None"
    using assms(19) by (simp add: unknown_col_def)
  ultimately have "\<exists>e. insert_row ?dC D = Inl e \<and> constraint_violation e"
    using insert_row_rejected by blast
  with nv iC show ?thesis by simp
qed

theorem design_review_scenario_witness:
  "run migration example_base = Inr example_migrated \<and>
   (\<exists>dA dB dC. insert_row example_migrated example_parent = Inr dA \<and>
      insert_row dA example_child_design = Inr dB \<and>
      insert_row dB example_child_review = Inr dC \<and>
      (\<exists>e. insert_row dC example_child_design2 = Inl e \<and> constraint_violation e))"
proof -
  define dA where "dA = example_migrated\<lparr>rows := rows example_migrated @
     [complete (cols example_migrated) example_parent]\<rparr>"
  define dB where "dB = dA\<lparr>rows := rows dA @ [complete (cols dA) example_child_design]\<rparr>"
  have m: "run migration example_base = Inr example_migrated" by code_simp
  have f: "''ux_tasks_parent_phase'' \<notin> iname ` set (idxs example_base)"
    by (simp add: example_base_def)
  have e: "example_migrated = run_dml example_migrated []" by (simp add: run_dml_def)
  have h4: "\<forall>r \<in> set (rows example_migrated). parent_of r \<noteq> Blob [10]" by code_simp
  have h5: "parent_of example_parent = Null" "phase_of example_parent = Null" by code_simp+
  have h7: "insert_row example_migrated example_parent = Inr dA" unfolding dA_def by code_simp
  have h8: "parent_of example_child_design = Blob [10]"
    "phase_of example_child_design = Text ''design''" "Blob [10] \<noteq> Null" by code_simp+
  have h11: "insert_row dA example_child_design = Inr dB" unfolding dB_def dA_def by code_simp
  have h12: "parent_of example_child_review = Blob [10]"
    "phase_of example_child_review = Text ''review''" by code_simp+
  have h14: "unknown_col dB (map fst example_child_review) = None"
    unfolding dB_def dA_def by code_simp
  have h15: "check_not_null (cols dB) (complete (cols dB) example_child_review) = None"
    unfolding dB_def dA_def by code_simp
  have h16: "\<forall>i \<in> set (idxs dB). i \<noteq> ux_tasks_parent_phase \<longrightarrow>
           \<not> violated i (rows dB) (complete (cols dB) example_child_review)"
    unfolding dB_def dA_def by code_simp
  have h17: "parent_of example_child_design2 = Blob [10]"
    "phase_of example_child_design2 = Text ''design''" by code_simp+
  have h19: "unknown_col dB (map fst example_child_design2) = None"
    unfolding dB_def dA_def by code_simp
  from design_review_scenario [OF m f e h4 h5 h7 h8 h11 h12 h14 h15 h16 h17 h19] m h7 h11
  show ?thesis by blast
qed

section \<open>The track column\<close>

lemma col_append_fresh: "c \<notin> fst ` set r \<Longrightarrow> col (r @ xs) c = col xs c"
  by (simp add: col_def map_add_def map_of_eq_None_iff [THEN iffD2]
      split: option.splits)

lemma update_loop_rows:
  "update_loop d p a seen rs = Inr out \<Longrightarrow> \<forall>r \<in> set (seen @ rs). Q r \<Longrightarrow>
   (\<And>r. check_not_null (cols d) r = None \<Longrightarrow> Q r) \<Longrightarrow> \<forall>r \<in> set out. Q r"
proof (induction rs arbitrary: seen)
  case Nil
  then show ?case by simp
next
  case (Cons r rs)
  show ?case
  proof (cases "p r")
    case False
    with Cons.prems(1) have "update_loop d p a (seen @ [r]) rs = Inr out" by simp
    moreover from Cons.prems(2) have "\<forall>x \<in> set ((seen @ [r]) @ rs). Q x" by simp
    ultimately show ?thesis using Cons.IH Cons.prems(3) by blast
  next
    case True
    with Cons.prems(1) have n: "check_not_null (cols d) (assign a r) = None"
      and l: "update_loop d p a (seen @ [assign a r]) rs = Inr out"
      by (auto split: option.splits)
    from n have "Q (assign a r)" by (rule Cons.prems(3))
    with Cons.prems(2) have "\<forall>x \<in> set ((seen @ [assign a r]) @ rs). Q x" by simp
    with l show ?thesis using Cons.IH Cons.prems(3) by blast
  qed
qed

lemma apply_dml_not_null:
  assumes "apply_dml d w = Inr d'" "c \<in> set (cols d)" "cnotnull c"
    and "\<forall>r \<in> set (rows d). col r (cname c) \<noteq> Null"
  shows "\<forall>r \<in> set (rows d'). col r (cname c) \<noteq> Null"
proof -
  have q: "col r (cname c) \<noteq> Null" if "check_not_null (cols d) r = None" for r
    using that assms(2,3) by (auto simp: check_not_null_None)
  show ?thesis
  proof (cases w)
    case (Insert r)
    with assms(1) have "d' = d\<lparr>rows := rows d @ [complete (cols d) r]\<rparr>"
      and "check_not_null (cols d) (complete (cols d) r) = None"
      using insert_row_Inr by auto
    with assms(4) q show ?thesis by simp
  next
    case (Update p a)
    with assms(1) obtain out where "update_loop d p a [] (rows d) = Inr out" "rows d' = out"
      using update_rows_Inr by fastforce
    with assms(4) q show ?thesis
      using update_loop_rows [of d p a "[]" "rows d" out "\<lambda>r. col r (cname c) \<noteq> Null"] by simp
  next
    case (Delete p)
    with assms show ?thesis by (auto simp: delete_rows_def)
  qed
qed

lemma step_not_null:
  assumes "c \<in> set (cols d)" "cnotnull c" "\<forall>r \<in> set (rows d). col r (cname c) \<noteq> Null"
  shows "\<forall>r \<in> set (rows (step d w)). col r (cname c) \<noteq> Null"
proof (cases "apply_dml d w")
  case (Inl e)
  with assms show ?thesis by (simp add: step_def)
next
  case (Inr d')
  from apply_dml_not_null [OF Inr assms] Inr show ?thesis by (simp add: step_def)
qed

lemma run_dml_not_null:
  "c \<in> set (cols d) \<Longrightarrow> cnotnull c \<Longrightarrow> \<forall>r \<in> set (rows d). col r (cname c) \<noteq> Null \<Longrightarrow>
   \<forall>r \<in> set (rows (run_dml d ws)). col r (cname c) \<noteq> Null"
  unfolding run_dml_def
proof (induction ws arbitrary: d)
  case Nil
  then show ?case by simp
next
  case (Cons w ws)
  have "c \<in> set (cols (step d w))" using Cons.prems(1) by (simp add: step_schema)
  moreover have "\<forall>r \<in> set (rows (step d w)). col r (cname c) \<noteq> Null"
    using Cons.prems by (rule step_not_null)
  ultimately show ?case using Cons.IH Cons.prems(2) by simp
qed

text \<open>
  C5. After the migration the table has the column \<^verbatim>\<open>track\<close>, declared TEXT NOT NULL
  DEFAULT 'quick'. In every store reached from there (the rows of the table before the
  migration listing the columns it had), no row has a null track, and a task inserted
  without a track is stored, and read back, with track "quick".
\<close>

theorem track_defaults_to_quick:
  assumes "run migration base = Inr d0"
    and "\<forall>r \<in> set (rows base). map fst r = map cname (cols base)"
    and "d = run_dml d0 ws"
  shows "find (\<lambda>c. cname c = ''track'') (cols d) =
           Some \<lparr>cname = ''track'', ctype = TEXT, cnotnull = True,
                 cdefault = Some (Text ''quick''), creferences = None\<rparr> \<and>
         (\<forall>r \<in> set (rows d). track_of r \<noteq> Null) \<and>
         (\<forall>t d'. map_of t ''track'' = None \<and> insert_row d t = Inr d' \<longrightarrow>
            rows d' = rows d @ [complete (cols d) t] \<and>
            track_of (last (rows d')) = Text ''quick'')"
proof (intro conjI allI impI)
  note R = reachable_facts [OF assms(1,3)]
  note M = migration_Inr [OF assms(1)]
  note K = migrated_complete [OF R(2) M(3,4,5)]
  show "find (\<lambda>c. cname c = ''track'') (cols d) =
           Some \<lparr>cname = ''track'', ctype = TEXT, cnotnull = True,
                 cdefault = Some (Text ''quick''), creferences = None\<rparr>"
    using M(3) by (simp add: R(2) find_append find_fresh track_col_def)
  have "\<forall>r \<in> set (rows d0). col r (cname track_col) \<noteq> Null"
  proof
    fix r assume "r \<in> set (rows d0)"
    then obtain r0 where r0: "r0 \<in> set (rows base)"
      and r: "r = r0 @ [(''track'', Text ''quick''), (''parent_task_id'', Null), (''phase_key'', Null)]"
      using M(7) by auto
    from r0 assms(2) M(3) have "''track'' \<notin> fst ` set r0"
      by (metis list.set_map)
    then show "col r (cname track_col) \<noteq> Null"
      by (simp add: r col_append_fresh track_col_def) (simp add: col_def)
  qed
  moreover have "track_col \<in> set (cols d0)" "cnotnull track_col"
    by (simp_all add: M(6) track_col_def)
  ultimately have "\<forall>r \<in> set (rows (run_dml d0 ws)). col r (cname track_col) \<noteq> Null"
    using run_dml_not_null by blast
  then show "\<forall>r \<in> set (rows d). track_of r \<noteq> Null"
    by (simp add: assms(3) track_col_def)
  fix t d'
  assume h: "map_of t ''track'' = None \<and> insert_row d t = Inr d'"
  then have d': "d' = d\<lparr>rows := rows d @ [complete (cols d) t]\<rparr>"
    using insert_row_Inr by blast
  then show "rows d' = rows d @ [complete (cols d) t]" by simp
  from h show "track_of (last (rows d')) = Text ''quick''"
    by (simp add: d' K)
qed

theorem track_defaults_to_quick_witness:
  "run migration example_base = Inr example_migrated \<and>
   list_all (\<lambda>r. map fst r = map cname (cols example_base)) (rows example_base) \<and>
   map_of example_untracked ''track'' = None \<and>
   (\<exists>d'. insert_row example_migrated example_untracked = Inr d' \<and>
         track_of (last (rows d')) = Text ''quick'')"
proof -
  have m: "run migration example_base = Inr example_migrated" by code_simp
  have s: "\<forall>r \<in> set (rows example_base). map fst r = map cname (cols example_base)"
    by code_simp
  have e: "example_migrated = run_dml example_migrated []" by (simp add: run_dml_def)
  have t: "map_of example_untracked ''track'' = None" by code_simp
  have i: "insert_row example_migrated example_untracked =
     Inr (example_migrated\<lparr>rows := rows example_migrated @
            [complete (cols example_migrated) example_untracked]\<rparr>)"
    by code_simp
  from s have s': "list_all (\<lambda>r. map fst r = map cname (cols example_base)) (rows example_base)"
    by (simp add: list_all_iff)
  from track_defaults_to_quick [OF m s e] t i m s' show ?thesis by blast
qed

section \<open>Running the migration's statements again\<close>

lemma exec_CreateIndex_skip:
  "t = tbl_name d \<Longrightarrow> iname i \<in> iname ` set (idxs d) \<Longrightarrow> exec (CreateIndex True t i) d = Inr d"
  by (simp add: exec.simps)

text \<open>
  C6. On a tasks table that already has indexes named
  \<^verbatim>\<open>idx_tasks_parent_task_id\<close>, \<^verbatim>\<open>idx_tasks_track\<close> and
  \<^verbatim>\<open>ux_tasks_parent_phase\<close>, the three CREATE INDEX IF NOT EXISTS statements run
  without error and return the store as it was.
\<close>

theorem index_creations_idempotent:
  assumes "tbl_name d = ''tasks''"
    and "{''idx_tasks_parent_task_id'', ''idx_tasks_track'', ''ux_tasks_parent_phase''}
           \<subseteq> iname ` set (idxs d)"
  shows "run index_creations d = Inr d"
proof -
  have "exec (CreateIndex True ''tasks'' idx_tasks_parent_task_id) d = Inr d"
    using assms by (intro exec_CreateIndex_skip) (simp_all add: idx_tasks_parent_task_id_def)
  moreover have "exec (CreateIndex True ''tasks'' idx_tasks_track) d = Inr d"
    using assms by (intro exec_CreateIndex_skip) (simp_all add: idx_tasks_track_def)
  moreover have "exec (CreateIndex True ''tasks'' ux_tasks_parent_phase) d = Inr d"
    using assms by (intro exec_CreateIndex_skip) (simp_all add: ux_tasks_parent_phase_def)
  ultimately show ?thesis by (simp add: index_creations_def)
qed

theorem index_creations_idempotent_witness:
  "tbl_name example_migrated = ''tasks'' \<and>
   {''idx_tasks_parent_task_id'', ''idx_tasks_track'', ''ux_tasks_parent_phase''}
      \<subseteq> iname ` set (idxs example_migrated) \<and>
   run index_creations example_migrated = Inr example_migrated"
proof -
  have t: "tbl_name example_migrated = ''tasks''" by (simp add: example_migrated_def)
  have n: "{''idx_tasks_parent_task_id'', ''idx_tasks_track'', ''ux_tasks_parent_phase''}
      \<subseteq> iname ` set (idxs example_migrated)"
    by (simp add: example_migrated_def idx_tasks_parent_task_id_def idx_tasks_track_def
        ux_tasks_parent_phase_def)
  from index_creations_idempotent [OF t n] t n show ?thesis by blast
qed

lemma exec_AddColumn_duplicate:
  "t = tbl_name d \<Longrightarrow> cname cd \<in> cname ` set (cols d) \<Longrightarrow>
   exec (AddColumn t cd) d = Inl (DuplicateColumn (cname cd))"
  by (simp add: exec.simps)

lemma exec_AddColumn_fresh:
  "t = tbl_name d \<Longrightarrow> cname cd \<notin> cname ` set (cols d) \<Longrightarrow>
   \<not> (cnotnull cd \<and> default_val cd = Null) \<Longrightarrow>
   exec (AddColumn t cd) d =
     Inr (d\<lparr>cols := cols d @ [cd], rows := map (\<lambda>r. r @ [(cname cd, default_val cd)]) (rows d)\<rparr>)"
  by (auto simp add: exec.simps)

text \<open>
  C7. On a tasks table that already has one of the columns \<^verbatim>\<open>track\<close>,
  \<^verbatim>\<open>parent_task_id\<close>, \<^verbatim>\<open>phase_key\<close>, the ALTER TABLE ADD COLUMN for it
  fails with a duplicate-column error, and so does the run of the column additions and
  of the whole migration: the run stops there and returns the error, with no store.
  The store being what it was, a further run meets the same error.
\<close>

theorem column_additions_not_idempotent:
  assumes "tbl_name d = ''tasks''"
    and "cd \<in> {track_col, parent_task_id_col, phase_key_col}"
    and "cname cd \<in> cname ` set (cols d)"
  shows "exec (AddColumn ''tasks'' cd) d = Inl (DuplicateColumn (cname cd)) \<and>
         (\<exists>c \<in> {''track'', ''parent_task_id'', ''phase_key''}.
            run column_additions d = Inl (DuplicateColumn c) \<and>
            run migration d = Inl (DuplicateColumn c))"
proof
  show "exec (AddColumn ''tasks'' cd) d = Inl (DuplicateColumn (cname cd))"
    using assms(1,3) by (simp add: exec_AddColumn_duplicate)
  have names: "cname track_col = ''track''" "cname parent_task_id_col = ''parent_task_id''"
    "cname phase_key_col = ''phase_key''"
    by (simp_all add: track_col_def parent_task_id_col_def phase_key_col_def)
  have dflt: "\<not> (cnotnull track_col \<and> default_val track_col = Null)"
    "\<not> (cnotnull parent_task_id_col \<and> default_val parent_task_id_col = Null)"
    by (simp_all add: track_col_def parent_task_id_col_def default_val_def)
  have "\<exists>c \<in> {''track'', ''parent_task_id'', ''phase_key''}.
          run column_additions d = Inl (DuplicateColumn c)"
  proof (cases "''track'' \<in> cname ` set (cols d)")
    case True
    with assms(1) have "exec (AddColumn ''tasks'' track_col) d = Inl (DuplicateColumn ''track'')"
      using exec_AddColumn_duplicate [of "''tasks''" d track_col] by (simp add: names)
    then show ?thesis by (simp add: column_additions_def)
  next
    case t: False
    let ?d1 = "d\<lparr>cols := cols d @ [track_col],
                  rows := map (\<lambda>r. r @ [(cname track_col, default_val track_col)]) (rows d)\<rparr>"
    have e1: "exec (AddColumn ''tasks'' track_col) d = Inr ?d1"
      using assms(1) t dflt(1) by (intro exec_AddColumn_fresh) (simp_all add: names)
    show ?thesis
    proof (cases "''parent_task_id'' \<in> cname ` set (cols d)")
      case True
      then have "exec (AddColumn ''tasks'' parent_task_id_col) ?d1 =
                   Inl (DuplicateColumn ''parent_task_id'')"
        using assms(1) exec_AddColumn_duplicate [of "''tasks''" ?d1 parent_task_id_col]
        by (simp add: names)
      with e1 show ?thesis by (simp add: column_additions_def)
    next
      case p: False
      let ?d2 = "?d1\<lparr>cols := cols ?d1 @ [parent_task_id_col],
                  rows := map (\<lambda>r. r @ [(cname parent_task_id_col, default_val parent_task_id_col)])
                            (rows ?d1)\<rparr>"
      have e2: "exec (AddColumn ''tasks'' parent_task_id_col) ?d1 = Inr ?d2"
        using assms(1) p dflt(2) by (intro exec_AddColumn_fresh) (simp_all add: names)
      from t p assms(2,3) have "''phase_key'' \<in> cname ` set (cols d)"
        by (auto simp: names)
      then have "exec (AddColumn ''tasks'' phase_key_col) ?d2 = Inl (DuplicateColumn ''phase_key'')"
        using assms(1) exec_AddColumn_duplicate [of "''tasks''" ?d2 phase_key_col]
        by (simp add: names)
      with e1 e2 show ?thesis by (simp add: column_additions_def)
    qed
  qed
  then show "\<exists>c \<in> {''track'', ''parent_task_id'', ''phase_key''}.
            run column_additions d = Inl (DuplicateColumn c) \<and>
            run migration d = Inl (DuplicateColumn c)"
    by (auto simp: migration_def run_append)
qed

theorem column_additions_not_idempotent_witness:
  "tbl_name example_partial = ''tasks'' \<and>
   cname parent_task_id_col \<in> cname ` set (cols example_partial) \<and>
   exec (AddColumn ''tasks'' parent_task_id_col) example_partial =
     Inl (DuplicateColumn ''parent_task_id'') \<and>
   run migration example_partial = Inl (DuplicateColumn ''parent_task_id'')"
proof -
  have t: "tbl_name example_partial = ''tasks''" by (simp add: example_partial_def)
  have c: "cname parent_task_id_col \<in> cname ` set (cols example_partial)"
    by (simp add: example_partial_def)
  have r: "run migration example_partial \<noteq> Inl (DuplicateColumn ''track'')"
    "run migration example_partial \<noteq> Inl (DuplicateColumn ''phase_key'')"
    by code_simp+
  from column_additions_not_idempotent [OF t _ c] r t c show ?thesis
    by (auto simp: parent_task_id_col_def)
qed

section \<open>The related tasks are listed once each\<close>

lemma map_of_map_set: "map_of (map_set m k v) = (map_of m)(k \<mapsto> v)"
  by (induction m k v rule: map_set.induct) auto

lemma keys_map_set:
  "map fst (map_set m k v) = (if k \<in> fst ` set m then map fst m else map fst m @ [k])"
  by (induction m k v rule: map_set.induct) auto

lemma distinct_map_set: "distinct (map fst m) \<Longrightarrow> distinct (map fst (map_set m k v))"
  by (simp add: keys_map_set)

lemma keyed_entries_map_set:
  "list_all (\<lambda>(k, t). k = task_id t) m \<Longrightarrow>
   list_all (\<lambda>(k, t). k = task_id t) (map_set m (task_id t) t)"
  by (induction m "task_id t" t rule: map_set.induct) auto

lemma keyed_map_set: "keyed m \<Longrightarrow> keyed (map_set m (task_id t) t)"
  by (simp add: keyed_def distinct_map_set keyed_entries_map_set)

lemma set_all_Cons: "set_all m (t # ts) = set_all (map_set m (task_id t) t) ts"
  by (simp add: set_all_def)

lemma keyed_set_all: "keyed m \<Longrightarrow> keyed (set_all m ts)"
proof (induction ts arbitrary: m)
  case Nil
  then show ?case by (simp add: set_all_def)
next
  case (Cons t ts)
  then show ?case by (simp add: set_all_Cons keyed_map_set)
qed

lemma map_of_set_all:
  "map_of (set_all m ts) = map_of m ++ map_of (rev (map (\<lambda>t. (task_id t, t)) ts))"
proof (induction ts arbitrary: m)
  case Nil
  then show ?case by (simp add: set_all_def)
next
  case (Cons t ts)
  show ?case
    by (rule ext) (simp add: set_all_Cons Cons.IH map_of_map_set map_add_def split: option.splits)
qed

lemma set_all_append: "set_all m (xs @ ys) = set_all (set_all m xs) ys"
  by (simp add: set_all_def)

lemma relatedTasks_processed:
  "relatedTasks rel tc = map_values (set_all [] (processed rel tc))"
  by (simp add: relatedTasks_def processed_def set_all_append set_all_Cons Let_def
      split: option.splits) (simp add: set_all_def)

lemma find_values:
  "list_all (\<lambda>(k, t). k = task_id t) m \<Longrightarrow>
   find (\<lambda>t. task_id t = k) (map snd m) = map_of m k"
  by (induction m) auto

lemma map_of_keyed_list:
  "map_of (map (\<lambda>t. (task_id t, t)) ts) k = find (\<lambda>t. task_id t = k) ts"
  by (induction ts) auto

lemma values_ids: "list_all (\<lambda>(k, t). k = task_id t) m \<Longrightarrow> map task_id (map snd m) = map fst m"
  by (induction m) auto

text \<open>
  C10. Whatever the parent, the children and \<^verbatim>\<open>taskChildren\<close> are, the ids of
  \<^verbatim>\<open>relatedTasks\<close> are pairwise distinct, they are the ids of the inputs, and the
  entry listed for an id is the task with that id that was processed last
  (\<^verbatim>\<open>taskChildren\<close> after the children, the children after the parent).
\<close>

theorem relatedTasks_distinct_last_wins:
  "distinct (map task_id (relatedTasks relationships taskChildren)) \<and>
   set (map task_id (relatedTasks relationships taskChildren)) =
     set (map task_id (processed relationships taskChildren)) \<and>
   find (\<lambda>t. task_id t = k) (relatedTasks relationships taskChildren) =
     find (\<lambda>t. task_id t = k) (rev (processed relationships taskChildren))"
proof -
  let ?ps = "processed relationships taskChildren"
  let ?m = "set_all [] ?ps"
  have k: "keyed ?m" by (rule keyed_set_all) (simp add: keyed_def)
  then have e: "list_all (\<lambda>(k, t). k = task_id t) ?m" and d: "distinct (map fst ?m)"
    by (simp_all add: keyed_def)
  have r: "relatedTasks relationships taskChildren = map snd ?m"
    by (simp add: relatedTasks_processed map_values_def)
  have ids: "map task_id (map snd ?m) = map fst ?m" using e by (rule values_ids)
  have m: "map_of ?m = map_of (rev (map (\<lambda>t. (task_id t, t)) ?ps))"
    by (simp add: map_of_set_all)
  have "set (map fst ?m) = dom (map_of ?m)" by (simp add: dom_map_of_conv_image_fst)
  also have "\<dots> = set (map task_id ?ps)"
    by (simp add: m dom_map_of_conv_image_fst image_image)
  finally have s: "set (map fst ?m) = set (map task_id ?ps)" .
  have "find (\<lambda>t. task_id t = k) (map snd ?m) = map_of ?m k" using e by (rule find_values)
  also have "\<dots> = find (\<lambda>t. task_id t = k) (rev ?ps)"
    by (simp add: m rev_map map_of_keyed_list)
  finally have f: "find (\<lambda>t. task_id t = k) (map snd ?m) = find (\<lambda>t. task_id t = k) (rev ?ps)" .
  from d s f show ?thesis unfolding r ids by simp
qed

section \<open>A parent that does not exist\<close>

lemma check_references_append:
  "check_references t ixs (cs @ cs') =
     (case check_references t ixs cs of Some e \<Rightarrow> Some e | None \<Rightarrow> check_references t ixs cs')"
  by (induction cs) (auto split: option.splits)

lemma check_foreign_append:
  "check_foreign (cs @ cs') rs r =
     (case check_foreign cs rs r of Some e \<Rightarrow> Some e | None \<Rightarrow> check_foreign cs' rs r)"
  by (induction cs) (auto split: option.splits)

lemma added_columns_declare_no_reference:
  "check_references t ixs [track_col, parent_task_id_col, phase_key_col] = None"
  "check_foreign [track_col, parent_task_id_col, phase_key_col] rs r = None"
  by (simp_all add: track_col_def parent_task_id_col_def phase_key_col_def)

text \<open>
  With foreign keys enforced, a table that declares the reference refuses the task
  whose parent does not exist; the same insert is accepted with enforcement off.
\<close>

lemma referencing_column_rejects_dangling:
  "insert_row_fk example_referencing example_dangling = Inl ForeignKeyFailed \<and>
   insert_row example_referencing example_dangling =
     Inr (example_referencing\<lparr>rows := rows example_referencing @
            [complete (cols example_referencing) example_dangling]\<rparr>)"
  by code_simp

text \<open>Where no column declares a reference, enforcement makes no difference.\<close>

lemma no_references_check_references:
  "\<forall>c \<in> set cs. creferences c = None \<Longrightarrow> check_references t ixs cs = None"
  by (induction cs) auto

lemma no_references_check_foreign:
  "\<forall>c \<in> set cs. creferences c = None \<Longrightarrow> check_foreign cs rs r = None"
  by (induction cs) auto

lemma no_references_insert_row_fk:
  assumes "\<forall>c \<in> set (cols d). creferences c = None"
  shows "insert_row_fk d r = insert_row d r"
proof (cases "unknown_col d (map fst r)")
  case None
  then show ?thesis
    using assms
    by (simp add: insert_row_fk_def no_references_check_references no_references_check_foreign
        split: sum.splits)
next
  case (Some c)
  then show ?thesis by (simp add: insert_row_fk_def insert_row_def)
qed

text \<open>
  C8. The migration declares \<^verbatim>\<open>parent_task_id\<close> as \<^verbatim>\<open>BLOB NULL\<close> with no
  REFERENCES clause. So in any store reached after it, also with foreign keys enforced, a
  task whose parent is the id of no stored task (nor its own) is inserted whenever it
  passes NOT NULL, the unique indexes and the references that the table's earlier
  columns declare; the store then holds it with its parent. The parent is missing in
  the very sense of a foreign key: had the column been declared to reference the id,
  the check would have failed on this row.
\<close>

theorem dangling_parent_accepted:
  assumes "run migration base = Inr d0" and "d = run_dml d0 ws"
    and "parent_of t = Blob p"
    and "\<forall>r \<in> set (rows d). col r ''id'' \<noteq> Blob p"
    and "col (complete (cols d) t) ''id'' \<noteq> Blob p"
    and "insert_row d t = Inr d'"
    and "check_references (tbl_name d) (idxs d) (cols base) = None"
    and "check_foreign (cols base) (rows d') (complete (cols d) t) = None"
  shows "find (\<lambda>c. cname c = ''parent_task_id'') (cols d) =
           Some \<lparr>cname = ''parent_task_id'', ctype = BLOB, cnotnull = False,
                 cdefault = None, creferences = None\<rparr> \<and>
         insert_row_fk d t = Inr d' \<and>
         complete (cols d) t \<in> set (rows d') \<and>
         parent_of (complete (cols d) t) = Blob p \<and>
         check_foreign [parent_task_id_col\<lparr>creferences := Some (''tasks'', ''id'')\<rparr>]
           (rows d') (complete (cols d) t) = Some ForeignKeyFailed"
proof -
  note R = reachable_facts [OF assms(1,2)]
  note M = migration_Inr [OF assms(1)]
  note K = migrated_complete [OF R(2) M(3,4,5)]
  note I = insert_row_Inr [OF assms(6)]
  let ?t = "complete (cols d) t"
  have d': "rows d' = rows d @ [?t]" using I by simp
  have u: "unknown_col d (map fst t) = None"
    using assms(6) by (cases "unknown_col d (map fst t)") (simp_all add: insert_row_def)
  have c1: "find (\<lambda>c. cname c = ''parent_task_id'') (cols d) =
           Some \<lparr>cname = ''parent_task_id'', ctype = BLOB, cnotnull = False,
                 cdefault = None, creferences = None\<rparr>"
    using M(4) by (simp add: R(2) find_append find_fresh track_col_def parent_task_id_col_def)
  have "check_references (tbl_name d) (idxs d) (cols d) = None"
    unfolding R(2) check_references_append
    by (simp only: assms(7) added_columns_declare_no_reference option.case)
  moreover have "check_foreign (cols d) (rows d') ?t = None"
    unfolding R(2) check_foreign_append
    using assms(8) [unfolded R(2)]
    by (simp only: added_columns_declare_no_reference option.case)
  ultimately have c2: "insert_row_fk d t = Inr d'"
    using u assms(6) by (simp add: insert_row_fk_def)
  have c3: "?t \<in> set (rows d')" by (simp add: d')
  have c4: "parent_of ?t = Blob p" using assms(3) by (simp add: K)
  have "\<not> (\<exists>s \<in> set (rows d'). col s ''id'' = parent_of ?t)"
    using assms(4,5) by (auto simp: d' c4)
  then have c5: "check_foreign [parent_task_id_col\<lparr>creferences := Some (''tasks'', ''id'')\<rparr>]
           (rows d') ?t = Some ForeignKeyFailed"
    using c4 by (simp add: parent_task_id_col_def)
  from c1 c2 c3 c4 c5 show ?thesis by blast
qed

theorem dangling_parent_accepted_witness:
  "run migration example_base = Inr example_migrated \<and>
   parent_of example_dangling = Blob [99] \<and>
   (\<exists>d'. insert_row_fk example_migrated example_dangling = Inr d' \<and>
      complete (cols example_migrated) example_dangling \<in> set (rows d') \<and>
      parent_of (complete (cols example_migrated) example_dangling) = Blob [99] \<and>
      list_all (\<lambda>s. col s ''id'' \<noteq> Blob [99]) (rows d'))"
proof -
  define d' where "d' = example_migrated\<lparr>rows := rows example_migrated @
     [complete (cols example_migrated) example_dangling]\<rparr>"
  have m: "run migration example_base = Inr example_migrated" by code_simp
  have e: "example_migrated = run_dml example_migrated []" by (simp add: run_dml_def)
  have p: "parent_of example_dangling = Blob [99]" by code_simp
  have h4: "\<forall>r \<in> set (rows example_migrated). col r ''id'' \<noteq> Blob [99]" by code_simp
  have h5: "col (complete (cols example_migrated) example_dangling) ''id'' \<noteq> Blob [99]"
    by code_simp
  have h6: "insert_row example_migrated example_dangling = Inr d'"
    unfolding d'_def by code_simp
  have h7: "check_references (tbl_name example_migrated) (idxs example_migrated)
              (cols example_base) = None" by code_simp
  have h8: "check_foreign (cols example_base) (rows d')
              (complete (cols example_migrated) example_dangling) = None"
    unfolding d'_def by code_simp
  have l: "list_all (\<lambda>s. col s ''id'' \<noteq> Blob [99]) (rows d')"
    unfolding d'_def by code_simp
  from dangling_parent_accepted [OF m e p h4 h5 h6 h7 h8] m p l show ?thesis by blast
qed

section \<open>When the children query runs\<close>

lemma useTaskChildren_enabled:
  "enabled (useTaskChildren taskId opts) \<longleftrightarrow>
     truthy taskId \<and> Option.bind opts opt_enabled \<noteq> Some False"
  by (cases "Option.bind opts opt_enabled") (auto simp: useTaskChildren_def nullish_def)

lemma useTaskChildren_queryFn: "queryFn (useTaskChildren taskId opts) = GetChildren taskId"
  by (simp add: useTaskChildren_def)

text \<open>
  C9. With \<^verbatim>\<open>taskId\<close> undefined the guard does disable the query, so mounting
  the hook calls nothing; but a \<^verbatim>\<open>refetch()\<close> on the result runs the query
  function all the same, and the call it makes is \<^verbatim>\<open>getChildren\<close> with the
  undefined \<^verbatim>\<open>taskId\<close>: the non-null assertion \<^verbatim>\<open>taskId!\<close> does not hold
  on that path.
\<close>

theorem refetch_runs_disabled_query:
  "enabled (useTaskChildren None None) = False \<and>
   calls (useTaskChildren None None) [Mount] = [] \<and>
   set (calls (useTaskChildren None None) [Mount, Refetch]) = {GetChildren None}"
  by (simp add: useTaskChildren_def nullish_def calls_def)

end
